theory Spec2Isabelle
  imports Main
begin

section \<open>Characters, strings and errors\<close>

text \<open>
  The parser of \<^verbatim>\<open>cpe_parser.py\<close> works on Python strings. A string is modelled as a
  list of characters; a character is one of the code points 0 to 255, so the model covers
  the inputs written in ASCII or Latin-1. Every failure of the program is a
  \<^verbatim>\<open>ValueError\<close>; the four messages are kept apart as four constructors. Two more
  constructors stand for the exceptions Python itself would raise: indexing a string out
  of range, and unpacking a tuple of the wrong length.
\<close>

datatype error =
    MalformedInput
  | MissingAttribute string
  | InvalidWildcardPlacement
  | InvalidSingleCharWildcardPlacement
  | IndexError
  | UnpackError

abbreviation backslash :: char where
  "backslash \<equiv> CHR 0x5C"

abbreviation newline :: char where
  "newline \<equiv> CHR 0x0A"

text \<open>
  \<^verbatim>\<open>str.isalnum\<close> on one character: the ASCII digits and letters, and the code points
  of the Latin-1 range that Python classifies as alphabetic, decimal, digit or numeric.
\<close>

definition isalnum :: "char \<Rightarrow> bool" where
  "isalnum c =
     (let n = (of_char c :: nat) in
        (48 \<le> n \<and> n \<le> 57) \<or> (65 \<le> n \<and> n \<le> 90) \<or> (97 \<le> n \<and> n \<le> 122)
        \<or> n = 170 \<or> n = 178 \<or> n = 179 \<or> n = 181 \<or> n = 185 \<or> n = 186
        \<or> n = 188 \<or> n = 189 \<or> n = 190
        \<or> (192 \<le> n \<and> n \<le> 214) \<or> (216 \<le> n \<and> n \<le> 246) \<or> (248 \<le> n \<and> n \<le> 255))"

text \<open>\<^verbatim>\<open>string[i]\<close> for \<open>i \<ge> 0\<close>: out of range it raises.\<close>

definition getitem :: "string \<Rightarrow> nat \<Rightarrow> error + char" where
  "getitem string i = (if i < length string then Inr (string ! i) else Inl IndexError)"

text \<open>\<^verbatim>\<open>string[a : b]\<close> for \<open>0 \<le> a\<close> and \<open>0 \<le> b\<close>: a slice is clipped, it never raises.\<close>

definition slice :: "string \<Rightarrow> nat \<Rightarrow> nat \<Rightarrow> string" where
  "slice string a b = take (b - a) (drop a string)"

section \<open>The escaping loop: \<^verbatim>\<open>add_quoting\<close>\<close>

text \<open>The three local variables of the \<^verbatim>\<open>while\<close> loop.\<close>

record aq_state =
  result :: string
  idx :: nat
  embedded :: bool

text \<open>
  Lines 70 to 72, the last statements of the loop body:
  \<^verbatim>\<open>result += "\\" + char; idx += 1; embedded = True\<close>.
\<close>

definition escape_char :: "char \<Rightarrow> aq_state \<Rightarrow> aq_state" where
  "escape_char char st =
     \<lparr>result = result st @ [backslash, char], idx = idx st + 1, embedded = True\<rparr>"

text \<open>
  The condition of line 63, with Python's evaluation order: \<^verbatim>\<open>string[idx - 1]\<close> is
  read only when \<open>idx\<close> is neither 0 nor the last position and \<open>embedded\<close> is false; the
  look-ahead \<^verbatim>\<open>string[idx + 1 : idx + 1 + 1]\<close> is a slice.
\<close>

definition qmark_valid :: "string \<Rightarrow> aq_state \<Rightarrow> error + bool" where
  "qmark_valid string st =
     (if idx st = 0 \<or> idx st = length string - 1 then Inr True
      else if \<not> embedded st then
        (case getitem string (idx st - 1) of
           Inl e \<Rightarrow> Inl e
         | Inr c \<Rightarrow> Inr (c = CHR ''?''))
      else Inr (slice string (idx st + 1) (idx st + 1 + 1) = ''?''))"

text \<open>
  One pass through the loop body (lines 40 to 72). The first three branches end with
  \<^verbatim>\<open>continue\<close> or \<^verbatim>\<open>raise\<close>. The branch of \<^verbatim>\<open>?\<close> has no
  \<^verbatim>\<open>continue\<close>: after its three assignments control reaches lines 70 to 72, with
  \<open>char\<close> still bound to the question mark.
\<close>

definition loop_body :: "string \<Rightarrow> aq_state \<Rightarrow> error + aq_state" where
  "loop_body string st =
     (case getitem string (idx st) of
        Inl e \<Rightarrow> Inl e
      | Inr char \<Rightarrow>
          if isalnum char \<or> char = CHR ''_'' then
            Inr \<lparr>result = result st @ [char], idx = idx st + 1, embedded = True\<rparr>
          else if char = backslash then
            Inr \<lparr>result = result st @ slice string (idx st) (idx st + 1 + 1),
                 idx = idx st + 2, embedded = True\<rparr>
          else if char = CHR ''*'' then
            (if idx st = 0 \<or> idx st = length string - 1 then
               Inr \<lparr>result = result st @ [char], idx = idx st + 1, embedded = True\<rparr>
             else Inl InvalidWildcardPlacement)
          else if char = CHR ''?'' then
            (case qmark_valid string st of
               Inl e \<Rightarrow> Inl e
             | Inr ok \<Rightarrow>
                 if ok then
                   Inr (escape_char char
                          \<lparr>result = result st @ [char], idx = idx st + 1, embedded = False\<rparr>)
                 else Inl InvalidSingleCharWildcardPlacement)
          else Inr (escape_char char st))"

function add_quoting_loop :: "string \<Rightarrow> aq_state \<Rightarrow> error + string" where
  "add_quoting_loop string st =
     (if idx st < length string then
        (case loop_body string st of
           Inl e \<Rightarrow> Inl e
         | Inr st' \<Rightarrow> add_quoting_loop string st')
      else Inr (result st))"
  by pat_completeness auto
termination
proof (relation "measure (\<lambda>(string, st). length string - idx st)")
  show "wf (measure (\<lambda>(string, st). length string - idx st))"
    by simp
next
  fix string :: string and st st' :: aq_state
  assume "idx st < length string" and "loop_body string st = Inr st'"
  then show "((string, st'), (string, st)) \<in> measure (\<lambda>(string, st). length string - idx st)"
    by (auto simp: loop_body_def escape_char_def split: sum.splits if_splits)
qed

declare add_quoting_loop.simps [simp del]

definition add_quoting :: "string \<Rightarrow> error + string" where
  "add_quoting string = add_quoting_loop string \<lparr>result = [], idx = 0, embedded = False\<rparr>"

text \<open>
  The states in which the loop body is entered, in order: the scan of \<open>string\<close> from
  \<open>st\<close>. A position is reached by the scan when it is the cursor of one of them.
\<close>

function scan_from :: "string \<Rightarrow> aq_state \<Rightarrow> aq_state list" where
  "scan_from string st =
     (if idx st < length string then
        st # (case loop_body string st of
                Inl e \<Rightarrow> []
              | Inr st' \<Rightarrow> scan_from string st')
      else [])"
  by pat_completeness auto
termination
proof (relation "measure (\<lambda>(string, st). length string - idx st)")
  show "wf (measure (\<lambda>(string, st). length string - idx st))"
    by simp
next
  fix string :: string and st st' :: aq_state
  assume "idx st < length string" and "loop_body string st = Inr st'"
  then show "((string, st'), (string, st)) \<in> measure (\<lambda>(string, st). length string - idx st)"
    by (auto simp: loop_body_def escape_char_def split: sum.splits if_splits)
qed

declare scan_from.simps [simp del]

definition scan :: "string \<Rightarrow> aq_state list" where
  "scan string = scan_from string \<lparr>result = [], idx = 0, embedded = False\<rparr>"

section \<open>Classifying one value: \<^verbatim>\<open>unbind_value\<close>\<close>

definition unbind_value :: "string \<Rightarrow> error + string" where
  "unbind_value v =
     (if v = ''*'' then Inr ''ANY''
      else if v = ''-'' then Inr ''NA''
      else add_quoting v)"

section \<open>The field splitter: the pattern and \<^verbatim>\<open>re.match\<close>\<close>

text \<open>
  The pattern of line 141 uses four kinds of regular-expression items: a literal
  character, the dot (any character but a newline), the group \<^verbatim>\<open>([aho])\<close> of one
  character of a class, and the group \<^verbatim>\<open>([^:]*)\<close>, a greedy run of characters other
  than one excluded character.
\<close>

datatype item =
    Lit char
  | Dot
  | Group_class "char list"
  | Group_star_except char

text \<open>
  \<^verbatim>\<open>cpe:2.3:([aho]):([^:]*):([^:]*):([^:]*):([^:]*):([^:]*):([^:]*):([^:]*):([^:]*):([^:]*):([^:]*)\<close>,
  item by item. The character between \<^verbatim>\<open>2\<close> and \<^verbatim>\<open>3\<close> is written unescaped in
  the source, so it is the dot of regular expressions.
\<close>

definition cpe_2_3_formatted_pattern :: "item list" where
  "cpe_2_3_formatted_pattern =
     [Lit CHR ''c'', Lit CHR ''p'', Lit CHR ''e'', Lit CHR '':'',
      Lit CHR ''2'', Dot, Lit CHR ''3'', Lit CHR '':'',
      Group_class ''aho'',
      Lit CHR '':'', Group_star_except CHR '':'',
      Lit CHR '':'', Group_star_except CHR '':'',
      Lit CHR '':'', Group_star_except CHR '':'',
      Lit CHR '':'', Group_star_except CHR '':'',
      Lit CHR '':'', Group_star_except CHR '':'',
      Lit CHR '':'', Group_star_except CHR '':'',
      Lit CHR '':'', Group_star_except CHR '':'',
      Lit CHR '':'', Group_star_except CHR '':'',
      Lit CHR '':'', Group_star_except CHR '':'',
      Lit CHR '':'', Group_star_except CHR '':'']"

text \<open>The first alternative that succeeds, as a backtracking matcher takes it.\<close>

primrec first_some :: "'a option list \<Rightarrow> 'a option" where
  "first_some [] = None"
| "first_some (x # xs) = (case x of None \<Rightarrow> first_some xs | Some y \<Rightarrow> Some y)"

text \<open>
  \<^verbatim>\<open>re.match(pattern, s)\<close> followed by \<^verbatim>\<open>.groups()\<close>: the match starts at the
  beginning of \<open>s\<close> and need not reach its end. The result is \<open>None\<close> when there is no
  match, and otherwise the list of the groups, where a group that took part in the match
  is \<open>Some\<close> of its text (Python gives \<^verbatim>\<open>None\<close> for a group that did not). A starred
  group is greedy: it first takes the longest run, and gives characters back one by one
  as long as the rest of the pattern fails.
\<close>

primrec re_match :: "item list \<Rightarrow> string \<Rightarrow> string option list option" where
  "re_match [] s = Some []"
| "re_match (it # p) s =
     (case it of
        Lit c \<Rightarrow>
          (case s of [] \<Rightarrow> None
           | x # xs \<Rightarrow> if x = c then re_match p xs else None)
      | Dot \<Rightarrow>
          (case s of [] \<Rightarrow> None
           | x # xs \<Rightarrow> if x \<noteq> newline then re_match p xs else None)
      | Group_class cs \<Rightarrow>
          (case s of [] \<Rightarrow> None
           | x # xs \<Rightarrow>
               if x \<in> set cs then map_option ((#) (Some [x])) (re_match p xs) else None)
      | Group_star_except c \<Rightarrow>
          first_some
            (map (\<lambda>k. map_option ((#) (Some (take k s))) (re_match p (drop k s)))
               (rev [0..<Suc (length (takeWhile (\<lambda>x. x \<noteq> c) s))])))"

section \<open>Assembling the record: \<^verbatim>\<open>unbind\<close> and \<^verbatim>\<open>process_cpe_str\<close>\<close>

text \<open>
  The dictionary of \<^verbatim>\<open>unbind\<close> is a list of pairs in insertion order, the order in
  which \<^verbatim>\<open>result.items()\<close> visits it. The loop of lines 124 to 128 replaces each
  value in turn and stops at the first failure.
\<close>

fun unbind_loop :: "(string \<times> string option) list \<Rightarrow> error + (string \<times> string) list" where
  "unbind_loop [] = Inr []"
| "unbind_loop ((k, v) # kvs) =
     (case v of
        None \<Rightarrow> Inl (MissingAttribute k)
      | Some v' \<Rightarrow>
          (case unbind_value v' of
             Inl e \<Rightarrow> Inl e
           | Inr w \<Rightarrow>
               (case unbind_loop kvs of
                  Inl e \<Rightarrow> Inl e
                | Inr r \<Rightarrow> Inr ((k, w) # r))))"

text \<open>Line 108 unpacks exactly eleven groups; any other number raises.\<close>

definition unbind :: "string option list \<Rightarrow> error + (string \<times> string) list" where
  "unbind groups =
     (case groups of
        [part, vendor, product, version, update, edition, language,
         sw_edition, target_sw, target_hw, other] \<Rightarrow>
          unbind_loop
            [(''part'', part),
             (''vendor'', vendor),
             (''product'', product),
             (''version'', version),
             (''update'', update),
             (''edition'', edition),
             (''language'', language),
             (''sw_edition'', sw_edition),
             (''target_sw'', target_sw),
             (''target_hw'', target_hw),
             (''other'', other)]
      | _ \<Rightarrow> Inl UnpackError)"

definition process_cpe_str :: "string \<Rightarrow> error + (string \<times> string) list" where
  "process_cpe_str cpe_string =
     (case re_match cpe_2_3_formatted_pattern cpe_string of
        None \<Rightarrow> Inl MalformedInput
      | Some groups \<Rightarrow> unbind groups)"

section \<open>Auxiliary notions for the pattern\<close>

text \<open>The items of a pattern that capture a group.\<close>

primrec is_group :: "item \<Rightarrow> bool" where
  "is_group (Lit c) = False"
| "is_group Dot = False"
| "is_group (Group_class cs) = True"
| "is_group (Group_star_except c) = True"

text \<open>
  The pattern \<^verbatim>\<open>:([^:]*)\<close> repeated \<open>n\<close> times; the pattern of line 141 ends with ten
  of them.
\<close>

primrec segments_pattern :: "nat \<Rightarrow> item list" where
  "segments_pattern 0 = []"
| "segments_pattern (Suc n) =
     Lit CHR '':'' # Group_star_except CHR '':'' # segments_pattern n"

section \<open>Properties of the loop body\<close>

lemma loop_body_advances:
  "loop_body string st = Inr st' \<Longrightarrow> idx st < idx st'"
  by (auto simp: loop_body_def escape_char_def split: sum.splits if_splits)

lemma getitem_in_range:
  "i < length string \<Longrightarrow> getitem string i = Inr (string ! i)"
  by (simp add: getitem_def)

lemma qmark_valid_total:
  "idx st < length string \<Longrightarrow> \<exists>ok. qmark_valid string st = Inr ok"
  by (auto simp: qmark_valid_def getitem_def)

lemma loop_body_errors:
  assumes "idx st < length string" and "loop_body string st = Inl e"
  shows "e = InvalidWildcardPlacement \<or> e = InvalidSingleCharWildcardPlacement"
proof -
  from assms(1) obtain ok where "qmark_valid string st = Inr ok"
    using qmark_valid_total by blast
  with assms show ?thesis
    by (auto simp: loop_body_def getitem_def split: if_splits)
qed

lemma add_quoting_loop_errors:
  "add_quoting_loop string st = Inl e \<Longrightarrow>
   e = InvalidWildcardPlacement \<or> e = InvalidSingleCharWildcardPlacement"
proof (induction string st rule: add_quoting_loop.induct)
  case (1 string st)
  show ?case
  proof (cases "idx st < length string")
    case False
    with "1.prems" show ?thesis
      by (simp add: add_quoting_loop.simps [of string st])
  next
    case True
    show ?thesis
    proof (cases "loop_body string st")
      case (Inl e')
      with True "1.prems" have "e' = e"
        by (simp add: add_quoting_loop.simps [of string st])
      with Inl True show ?thesis
        using loop_body_errors by blast
    next
      case (Inr st')
      with True "1.prems" have "add_quoting_loop string st' = Inl e"
        by (simp add: add_quoting_loop.simps [of string st])
      with "1.IH" [OF True Inr] show ?thesis .
    qed
  qed
qed

lemma unbind_value_errors:
  "unbind_value v = Inl e \<Longrightarrow>
   e = InvalidWildcardPlacement \<or> e = InvalidSingleCharWildcardPlacement"
  by (auto simp: unbind_value_def add_quoting_def split: if_splits
           dest: add_quoting_loop_errors)

section \<open>The question mark\<close>

text \<open>
  What one pass through the loop body does with a valid question mark, at any position:
  the fall-through to lines 70 to 72 emits it a second time, escaped.
\<close>

lemma valid_question_mark_step:
  assumes "idx st < length string" and "string ! idx st = CHR ''?''"
    and "qmark_valid string st = Inr True"
  shows "loop_body string st =
           Inr \<lparr>result = result st @ [CHR ''?'', backslash, CHR ''?''],
                idx = idx st + 2, embedded = True\<rparr>"
  using assms by (simp add: loop_body_def getitem_def escape_char_def isalnum_def)

text \<open>
  C1. The specification has a valid unescaped question mark copied through once, the
  cursor moved by one and the flag false afterwards. The code does not: on the
  one-character component \<^verbatim>\<open>?\<close> (first and last position at once) one pass through
  the loop body appends the question mark, then an escape marker and the question mark
  again, moves the cursor by two and leaves the flag true.
\<close>

theorem question_mark_emitted_twice:
  "loop_body ''?'' \<lparr>result = [], idx = 0, embedded = False\<rparr> =
     Inr \<lparr>result = [CHR ''?'', backslash, CHR ''?''], idx = 2, embedded = True\<rparr>
   \<and> add_quoting ''?'' = Inr [CHR ''?'', backslash, CHR ''?'']"
  by code_simp

section \<open>The value classifier\<close>

text \<open>
  C6. \<^verbatim>\<open>unbind_value\<close> maps the segment \<^verbatim>\<open>*\<close> to \<^verbatim>\<open>ANY\<close>, the segment
  \<^verbatim>\<open>-\<close> to \<^verbatim>\<open>NA\<close>, and every other segment, the empty one included, to the
  result of \<^verbatim>\<open>add_quoting\<close> on it.
\<close>

theorem unbind_value_cases:
  "unbind_value ''*'' = Inr ''ANY''
   \<and> unbind_value ''-'' = Inr ''NA''
   \<and> unbind_value [] = add_quoting []
   \<and> (\<forall>v. v \<noteq> ''*'' \<and> v \<noteq> ''-'' \<longrightarrow> unbind_value v = add_quoting v)"
  by (simp add: unbind_value_def)

theorem unbind_value_cases_witness:
  "''8.4'' \<noteq> ''*'' \<and> ''8.4'' \<noteq> ''-''
   \<and> unbind_value ''8.4'' = add_quoting ''8.4''
   \<and> add_quoting ''8.4'' = Inr [CHR ''8'', backslash, CHR ''.'', CHR ''4'']"
proof -
  have run: "add_quoting ''8.4'' = Inr [CHR ''8'', backslash, CHR ''.'', CHR ''4'']"
    by code_simp
  have ne: "''8.4'' \<noteq> ''*'' \<and> ''8.4'' \<noteq> ''-''"
    by simp
  from unbind_value_cases have "unbind_value ''8.4'' = add_quoting ''8.4''"
    using ne by blast
  with run ne show ?thesis by simp
qed

section \<open>The record\<close>

lemma unbind_loop_keys:
  "unbind_loop kvs = Inr r \<Longrightarrow> map fst r = map fst kvs"
proof (induction kvs arbitrary: r)
  case Nil
  then show ?case by simp
next
  case (Cons kv kvs)
  obtain k v where kv: "kv = (k, v)" by (cases kv)
  from Cons.prems kv obtain w r' where
    "unbind_loop kvs = Inr r'" and "r = (k, w) # r'"
    by (auto split: option.splits sum.splits)
  with Cons.IH [of r'] kv show ?case by simp
qed

lemma unbind_keys:
  "unbind groups = Inr r \<Longrightarrow>
   map fst r = [''part'', ''vendor'', ''product'', ''version'', ''update'', ''edition'',
                ''language'', ''sw_edition'', ''target_sw'', ''target_hw'', ''other'']"
  unfolding unbind_def
  by (auto split: list.splits dest!: unbind_loop_keys simp del: unbind_loop.simps)

text \<open>
  C7. When \<^verbatim>\<open>process_cpe_str\<close> succeeds, the keys of the record are exactly the eleven
  attribute names, in the fixed order; each is bound to a string (the type of the values
  has no null).
\<close>

theorem process_cpe_str_keys:
  "process_cpe_str cpe_string = Inr r \<Longrightarrow>
   map fst r = [''part'', ''vendor'', ''product'', ''version'', ''update'', ''edition'',
                ''language'', ''sw_edition'', ''target_sw'', ''target_hw'', ''other'']"
  unfolding process_cpe_str_def
  by (auto split: option.splits dest: unbind_keys)

theorem process_cpe_str_keys_witness:
  "process_cpe_str ''cpe:2.3:a:mozilla:firefox:78:*:*:*:*:*:*:-'' =
     Inr [(''part'', ''a''), (''vendor'', ''mozilla''), (''product'', ''firefox''),
          (''version'', ''78''), (''update'', ''ANY''), (''edition'', ''ANY''),
          (''language'', ''ANY''), (''sw_edition'', ''ANY''), (''target_sw'', ''ANY''),
          (''target_hw'', ''ANY''), (''other'', ''NA'')]
   \<and> map fst [(''part'', ''a''), (''vendor'', ''mozilla''), (''product'', ''firefox''),
          (''version'', ''78''), (''update'', ''ANY''), (''edition'', ''ANY''),
          (''language'', ''ANY''), (''sw_edition'', ''ANY''), (''target_sw'', ''ANY''),
          (''target_hw'', ''ANY''), (''other'', ''NA'')]
     = [''part'', ''vendor'', ''product'', ''version'', ''update'', ''edition'',
        ''language'', ''sw_edition'', ''target_sw'', ''target_hw'', ''other'']"
proof -
  have run: "process_cpe_str ''cpe:2.3:a:mozilla:firefox:78:*:*:*:*:*:*:-'' =
     Inr [(''part'', ''a''), (''vendor'', ''mozilla''), (''product'', ''firefox''),
          (''version'', ''78''), (''update'', ''ANY''), (''edition'', ''ANY''),
          (''language'', ''ANY''), (''sw_edition'', ''ANY''), (''target_sw'', ''ANY''),
          (''target_hw'', ''ANY''), (''other'', ''NA'')]"
    by code_simp
  show ?thesis
    using run process_cpe_str_keys [OF run] by simp
qed

lemma unbind_loop_errors:
  "unbind_loop kvs = Inl e \<Longrightarrow>
   (\<exists>k. e = MissingAttribute k \<and> (k, None) \<in> set kvs)
   \<or> e = InvalidWildcardPlacement \<or> e = InvalidSingleCharWildcardPlacement"
proof (induction kvs)
  case Nil
  then show ?case by simp
next
  case (Cons kv kvs)
  obtain k v where kv: "kv = (k, v)" by (cases kv)
  show ?case
  proof (cases v)
    case None
    with Cons.prems kv show ?thesis by auto
  next
    case (Some v')
    show ?thesis
    proof (cases "unbind_value v'")
      case (Inl e')
      with Cons.prems kv Some have "e' = e" by simp
      with Inl show ?thesis using unbind_value_errors by blast
    next
      case (Inr w)
      with Cons.prems kv Some have "unbind_loop kvs = Inl e"
        by (simp split: sum.splits)
      from Cons.IH [OF this] show ?thesis by auto
    qed
  qed
qed

lemma unbind_errors:
  assumes "unbind groups = Inl e"
  shows "(\<exists>k. e = MissingAttribute k \<and> None \<in> set groups)
         \<or> (e = UnpackError \<and> length groups \<noteq> 11)
         \<or> e = InvalidWildcardPlacement \<or> e = InvalidSingleCharWildcardPlacement"
proof (cases "length groups = 11")
  case False
  with assms have "e = UnpackError"
    unfolding unbind_def by (auto split: list.splits simp del: unbind_loop.simps)
  with False show ?thesis by simp
next
  case True
  then obtain g1 g2 g3 g4 g5 g6 g7 g8 g9 g10 g11 where
    groups: "groups = [g1, g2, g3, g4, g5, g6, g7, g8, g9, g10, g11]"
    by (auto simp: length_Suc_conv eval_nat_numeral)
  with assms have "unbind_loop
            [(''part'', g1), (''vendor'', g2), (''product'', g3), (''version'', g4),
             (''update'', g5), (''edition'', g6), (''language'', g7),
             (''sw_edition'', g8), (''target_sw'', g9), (''target_hw'', g10),
             (''other'', g11)] = Inl e"
    unfolding unbind_def by (simp del: unbind_loop.simps)
  from unbind_loop_errors [OF this] groups show ?thesis
    by auto
qed

section \<open>The matcher\<close>

lemma first_some_SomeD:
  "first_some xs = Some y \<Longrightarrow> Some y \<in> set xs"
  by (induction xs) (auto split: option.splits)

lemma first_some_all_None:
  "(\<And>x. x \<in> set xs \<Longrightarrow> x = None) \<Longrightarrow> first_some xs = None"
  by (induction xs) (auto split: option.splits)

lemma first_some_countdown:
  assumes "f n \<noteq> None \<or> (\<forall>k<n. f k = None)"
  shows "first_some (map f (rev [0..<Suc n])) = f n"
proof (cases "f n")
  case (Some y)
  then show ?thesis by simp
next
  case None
  with assms have "\<forall>k<n. f k = None" by simp
  then have "first_some (map f (rev [0..<n])) = None"
    by (intro first_some_all_None) auto
  with None show ?thesis by simp
qed

lemma re_match_star_SomeD:
  assumes "re_match (Group_star_except c # p) s = Some gs"
  shows "\<exists>k gs'. re_match p (drop k s) = Some gs' \<and> gs = Some (take k s) # gs'"
proof -
  let ?f = "\<lambda>k. map_option ((#) (Some (take k s))) (re_match p (drop k s))"
  let ?ks = "rev [0..<Suc (length (takeWhile (\<lambda>x. x \<noteq> c) s))]"
  from assms have "first_some (map ?f ?ks) = Some gs"
    by (simp only: re_match.simps item.case)
  then have "Some gs \<in> set (map ?f ?ks)"
    by (rule first_some_SomeD)
  then have "Some gs \<in> ?f ` set ?ks"
    by (simp only: set_map)
  then obtain k where "Some gs = ?f k"
    by (rule imageE)
  then have "?f k = Some gs"
    by (rule sym)
  then show ?thesis
    by (cases "re_match p (drop k s)") auto
qed

lemma re_match_groups_present:
  "re_match p s = Some gs \<Longrightarrow> None \<notin> set gs"
proof (induction p arbitrary: s gs)
  case Nil
  then show ?case by simp
next
  case (Cons it p)
  show ?case
  proof (cases it)
    case (Lit c)
    with Cons show ?thesis by (auto split: list.splits if_splits)
  next
    case Dot
    with Cons show ?thesis by (auto split: list.splits if_splits)
  next
    case (Group_class cs)
    with Cons show ?thesis by (auto split: list.splits if_splits)
  next
    case (Group_star_except c)
    from Cons.prems have star: "re_match (Group_star_except c # p) s = Some gs"
      unfolding Group_star_except .
    from re_match_star_SomeD [OF star] obtain k gs' where "re_match p (drop k s) = Some gs'" and "gs = Some (take k s) # gs'"
      by blast
    with Cons.IH show ?thesis by auto
  qed
qed

lemma re_match_groups_length:
  "re_match p s = Some gs \<Longrightarrow> length gs = length (filter is_group p)"
proof (induction p arbitrary: s gs)
  case Nil
  then show ?case by simp
next
  case (Cons it p)
  show ?case
  proof (cases it)
    case (Lit c)
    with Cons show ?thesis by (auto split: list.splits if_splits)
  next
    case Dot
    with Cons show ?thesis by (auto split: list.splits if_splits)
  next
    case (Group_class cs)
    with Cons show ?thesis by (auto split: list.splits if_splits)
  next
    case (Group_star_except c)
    from Cons.prems have star: "re_match (Group_star_except c # p) s = Some gs"
      unfolding Group_star_except .
    from re_match_star_SomeD [OF star] obtain k gs' where "re_match p (drop k s) = Some gs'" and "gs = Some (take k s) # gs'"
      by blast
    with Cons.IH Group_star_except show ?thesis by auto
  qed
qed

lemma count_list_drop_le:
  "count_list (drop k s) c \<le> count_list s c"
proof -
  have "count_list (take k s @ drop k s) c = count_list (take k s) c + count_list (drop k s) c"
    by (rule count_list_append)
  then show ?thesis by simp
qed

lemma re_match_needs_literals:
  "re_match p s = Some gs \<Longrightarrow> count_list p (Lit c) \<le> count_list s c"
proof (induction p arbitrary: s gs)
  case Nil
  then show ?case by simp
next
  case (Cons it p)
  show ?case
  proof (cases it)
    case (Lit d)
    with Cons.prems obtain xs where s: "s = d # xs" and m: "re_match p xs = Some gs"
      by (auto split: list.splits if_splits)
    from Cons.IH [OF m] s Lit show ?thesis by auto
  next
    case Dot
    with Cons.prems obtain x xs where s: "s = x # xs" and m: "re_match p xs = Some gs"
      by (auto split: list.splits if_splits)
    from Cons.IH [OF m] s Dot show ?thesis by auto
  next
    case (Group_class cs)
    with Cons.prems obtain x xs gs' where s: "s = x # xs" and m: "re_match p xs = Some gs'"
      by (auto split: list.splits if_splits)
    from Cons.IH [OF m] s Group_class show ?thesis by auto
  next
    case (Group_star_except d)
    from Cons.prems have star: "re_match (Group_star_except d # p) s = Some gs"
      unfolding Group_star_except .
    from re_match_star_SomeD [OF star] obtain k gs' where m: "re_match p (drop k s) = Some gs'"
      by blast
    from Cons.IH [OF m] count_list_drop_le [of k s c] Group_star_except show ?thesis by auto
  qed
qed

lemma pattern_groups:
  "length (filter is_group cpe_2_3_formatted_pattern) = 11"
  by (simp add: cpe_2_3_formatted_pattern_def)

lemma pattern_colons:
  "count_list cpe_2_3_formatted_pattern (Lit CHR '':'') = 12"
  by (simp add: cpe_2_3_formatted_pattern_def)

text \<open>
  C9. When the pattern matches, the matcher returns eleven groups and each of them is a
  string, possibly empty, never the absent value; so the test of line 125 never fires, and
  \<^verbatim>\<open>process_cpe_str\<close> raises the error of line 126 on no input.
\<close>

theorem groups_never_absent:
  "(\<forall>groups. re_match cpe_2_3_formatted_pattern cpe_string = Some groups \<longrightarrow>
       length groups = 11 \<and> None \<notin> set groups)
   \<and> (\<forall>k. process_cpe_str cpe_string \<noteq> Inl (MissingAttribute k))"
proof (intro conjI allI impI)
  fix groups
  assume m: "re_match cpe_2_3_formatted_pattern cpe_string = Some groups"
  from re_match_groups_length [OF m] show "length groups = 11"
    by (simp only: pattern_groups)
  from re_match_groups_present [OF m] show "None \<notin> set groups" .
next
  fix k
  show "process_cpe_str cpe_string \<noteq> Inl (MissingAttribute k)"
  proof (cases "re_match cpe_2_3_formatted_pattern cpe_string")
    case None
    then show ?thesis by (simp add: process_cpe_str_def)
  next
    case (Some groups)
    from re_match_groups_present [OF Some] have "None \<notin> set groups" .
    moreover from Some have "process_cpe_str cpe_string = unbind groups"
      by (simp add: process_cpe_str_def)
    ultimately show ?thesis
      using unbind_errors [of groups "MissingAttribute k"] by auto
  qed
qed

theorem groups_never_absent_witness:
  "re_match cpe_2_3_formatted_pattern ''cpe:2.3:a:mozilla:firefox::*:*:*:*:*:*:-'' =
     Some [Some ''a'', Some ''mozilla'', Some ''firefox'', Some [], Some ''*'', Some ''*'',
           Some ''*'', Some ''*'', Some ''*'', Some ''*'', Some ''-'']
   \<and> length [Some ''a'', Some ''mozilla'', Some ''firefox'', Some [], Some ''*'', Some ''*'',
           Some ''*'', Some ''*'', Some ''*'', Some ''*'', Some ''-''] = 11
   \<and> None \<notin> set [Some ''a'', Some ''mozilla'', Some ''firefox'', Some [], Some ''*'',
           Some ''*'', Some ''*'', Some ''*'', Some ''*'', Some ''*'', Some ''-'']
   \<and> process_cpe_str ''cpe:2.3:a:mozilla:firefox::*:*:*:*:*:*:-''
         \<noteq> Inl (MissingAttribute ''version'')"
proof -
  have run: "re_match cpe_2_3_formatted_pattern ''cpe:2.3:a:mozilla:firefox::*:*:*:*:*:*:-'' =
     Some [Some ''a'', Some ''mozilla'', Some ''firefox'', Some [], Some ''*'', Some ''*'',
           Some ''*'', Some ''*'', Some ''*'', Some ''*'', Some ''-'']"
    by code_simp
  from groups_never_absent [of "''cpe:2.3:a:mozilla:firefox::*:*:*:*:*:*:-''"] run
  show ?thesis by blast
qed

text \<open>
  C8. An input that starts with \<^verbatim>\<open>cpe:2.3:\<close> and continues with fewer than eleven
  segments separated by colons (fewer than ten colons) fails as malformed; the result is
  the error alone, no record comes with it.
\<close>

theorem too_few_segments_malformed:
  assumes "count_list rest CHR '':'' + 1 < 11"
  shows "process_cpe_str (''cpe:2.3:'' @ rest) = Inl MalformedInput"
proof (cases "re_match cpe_2_3_formatted_pattern (''cpe:2.3:'' @ rest)")
  case None
  then show ?thesis by (simp add: process_cpe_str_def)
next
  case (Some groups)
  from re_match_needs_literals [OF Some, of "CHR '':''"]
  have "12 \<le> count_list (''cpe:2.3:'' @ rest) CHR '':''"
    by (simp only: pattern_colons)
  with assms show ?thesis by simp
qed

theorem too_few_segments_malformed_witness:
  "count_list ''h:-:acrobat_reader:DC-2019.012.20051:-:-:-*'' CHR '':'' + 1 < 11
   \<and> process_cpe_str (''cpe:2.3:'' @ ''h:-:acrobat_reader:DC-2019.012.20051:-:-:-*'')
       = Inl MalformedInput"
proof -
  have few: "count_list ''h:-:acrobat_reader:DC-2019.012.20051:-:-:-*'' CHR '':'' + 1 < 11"
    by simp
  from few too_few_segments_malformed [OF few] show ?thesis
    by (rule conjI)
qed

section \<open>Trailing content\<close>

lemma re_match_star_greedy:
  assumes "p = [] \<or> (\<exists>q. p = Lit c # q)"
  shows "re_match (Group_star_except c # p) s =
         map_option ((#) (Some (takeWhile (\<lambda>x. x \<noteq> c) s)))
           (re_match p (dropWhile (\<lambda>x. x \<noteq> c) s))"
proof -
  let ?P = "\<lambda>x. x \<noteq> c"
  let ?n = "length (takeWhile ?P s)"
  let ?f = "\<lambda>k. map_option ((#) (Some (take k s))) (re_match p (drop k s))"
  have shorter: "?f k = None" if "k < ?n" and "p = Lit c # q" for k q
  proof -
    from that(1) have k: "k < length s"
      using length_takeWhile_le [of ?P s] by simp
    from that(1) have "takeWhile ?P s ! k \<in> set (takeWhile ?P s)"
      by simp
    then have "?P (takeWhile ?P s ! k)"
      by (rule set_takeWhileD [THEN conjunct2])
    with that(1) have "s ! k \<noteq> c"
      by (simp add: takeWhile_nth)
    moreover from k have "drop k s = s ! k # drop (Suc k) s"
      by (simp add: Cons_nth_drop_Suc)
    ultimately show ?thesis
      using that(2) by simp
  qed
  have "?f ?n \<noteq> None \<or> (\<forall>k<?n. ?f k = None)"
    using assms shorter by auto
  then have "first_some (map ?f (rev [0..<Suc ?n])) = ?f ?n"
    by (rule first_some_countdown)
  moreover have "take ?n s = takeWhile ?P s"
    by (rule takeWhile_eq_take [symmetric])
  moreover have "drop ?n s = dropWhile ?P s"
    by (rule dropWhile_eq_drop [symmetric])
  ultimately show ?thesis
    by (simp only: re_match.simps item.case)
qed

lemma segments_pattern_shape:
  "segments_pattern n = [] \<or> (\<exists>q. segments_pattern n = Lit CHR '':'' # q)"
  by (cases n) simp_all

lemma re_match_Lit_SomeD:
  "re_match (Lit c # p) s = Some gs \<Longrightarrow> \<exists>xs. s = c # xs \<and> re_match p xs = Some gs"
  by (cases s) (auto split: if_splits)

lemma re_match_Lit_Cons:
  "re_match (Lit c # p) (c # xs) = re_match p xs"
  by simp

lemma takeWhile_before_separator:
  "takeWhile (\<lambda>x. x \<noteq> c) (xs @ c # t) = takeWhile (\<lambda>x. x \<noteq> c) xs"
  by (induction xs) simp_all

lemma segments_pattern_append:
  "re_match (segments_pattern n) s = Some gs \<Longrightarrow>
   re_match (segments_pattern n) (s @ CHR '':'' # t) = Some gs"
proof (induction n arbitrary: s gs)
  case 0
  then show ?case by simp
next
  case (Suc n)
  let ?P = "\<lambda>x. x \<noteq> CHR '':''"
  let ?star = "Group_star_except CHR '':'' # segments_pattern n"
  from Suc.prems have "re_match (Lit CHR '':'' # ?star) s = Some gs"
    by (simp only: segments_pattern.simps)
  then obtain xs where s: "s = CHR '':'' # xs" and star: "re_match ?star xs = Some gs"
    using re_match_Lit_SomeD by blast
  from star have "map_option ((#) (Some (takeWhile ?P xs)))
                    (re_match (segments_pattern n) (dropWhile ?P xs)) = Some gs"
    by (simp only: re_match_star_greedy [OF segments_pattern_shape])
  then obtain gs' where
    rest: "re_match (segments_pattern n) (dropWhile ?P xs) = Some gs'"
    and gs: "gs = Some (takeWhile ?P xs) # gs'"
    by auto
  have longer: "re_match (segments_pattern n) (dropWhile ?P (xs @ CHR '':'' # t)) = Some gs'"
  proof (cases n)
    case 0
    with rest show ?thesis by simp
  next
    case (Suc m)
    with rest have "re_match (Lit CHR '':'' # Group_star_except CHR '':'' # segments_pattern m)
                      (dropWhile ?P xs) = Some gs'"
      by (simp only: segments_pattern.simps)
    then obtain ys where "dropWhile ?P xs = CHR '':'' # ys"
      using re_match_Lit_SomeD by blast
    then have "dropWhile ?P xs \<noteq> []"
      by simp
    then have "\<exists>x\<in>set xs. \<not> ?P x"
      by (auto simp: dropWhile_eq_Nil_conv)
    then have "dropWhile ?P (xs @ CHR '':'' # t) = dropWhile ?P xs @ CHR '':'' # t"
      by (auto simp: dropWhile_append1)
    with Suc.IH [OF rest] show ?thesis by simp
  qed
  have "re_match ?star (xs @ CHR '':'' # t) =
          map_option ((#) (Some (takeWhile ?P (xs @ CHR '':'' # t))))
            (re_match (segments_pattern n) (dropWhile ?P (xs @ CHR '':'' # t)))"
    by (rule re_match_star_greedy [OF segments_pattern_shape])
  also have "\<dots> = Some gs"
    by (simp only: longer takeWhile_before_separator gs option.map)
  finally have "re_match (Lit CHR '':'' # ?star) (CHR '':'' # xs @ CHR '':'' # t) = Some gs"
    by (simp only: re_match_Lit_Cons)
  with s show ?case
    by (simp only: segments_pattern.simps append_Cons)
qed

lemma pattern_split:
  "cpe_2_3_formatted_pattern =
     [Lit CHR ''c'', Lit CHR ''p'', Lit CHR ''e'', Lit CHR '':'',
      Lit CHR ''2'', Dot, Lit CHR ''3'', Lit CHR '':'', Group_class ''aho'']
     @ segments_pattern 10"
  by (simp add: cpe_2_3_formatted_pattern_def eval_nat_numeral)

lemma Lit_append:
  assumes "\<forall>s gs. re_match p s = Some gs \<longrightarrow> re_match p (s @ u) = Some gs"
  shows "\<forall>s gs. re_match (Lit c # p) s = Some gs \<longrightarrow> re_match (Lit c # p) (s @ u) = Some gs"
  using assms by (auto split: list.splits if_splits)

lemma Dot_append:
  assumes "\<forall>s gs. re_match p s = Some gs \<longrightarrow> re_match p (s @ u) = Some gs"
  shows "\<forall>s gs. re_match (Dot # p) s = Some gs \<longrightarrow> re_match (Dot # p) (s @ u) = Some gs"
  using assms by (auto split: list.splits if_splits)

lemma Group_class_append:
  assumes "\<forall>s gs. re_match p s = Some gs \<longrightarrow> re_match p (s @ u) = Some gs"
  shows "\<forall>s gs. re_match (Group_class cs # p) s = Some gs \<longrightarrow>
           re_match (Group_class cs # p) (s @ u) = Some gs"
  using assms by (auto split: list.splits if_splits)

lemma prefix_append:
  assumes "\<forall>s gs. re_match q s = Some gs \<longrightarrow> re_match q (s @ u) = Some gs"
  shows "\<forall>s gs. re_match ([Lit c1, Lit c2, Lit c3, Lit c4, Lit c5, Dot, Lit c7, Lit c8,
                           Group_class cs] @ q) s = Some gs \<longrightarrow>
           re_match ([Lit c1, Lit c2, Lit c3, Lit c4, Lit c5, Dot, Lit c7, Lit c8,
                      Group_class cs] @ q) (s @ u) = Some gs"
  unfolding append_Cons append_Nil
  by (intro Lit_append Dot_append Group_class_append) (rule assms)

lemma re_match_pattern_append:
  assumes "re_match cpe_2_3_formatted_pattern s = Some gs"
  shows "re_match cpe_2_3_formatted_pattern (s @ CHR '':'' # t) = Some gs"
proof -
  have "\<forall>s gs. re_match (segments_pattern 10) s = Some gs \<longrightarrow>
          re_match (segments_pattern 10) (s @ CHR '':'' # t) = Some gs"
    using segments_pattern_append by blast
  from prefix_append [OF this] assms show ?thesis
    unfolding pattern_split by blast
qed

text \<open>
  C3. The match is anchored at the start only: when \<open>s\<close> is parsed into a record, \<open>s\<close>
  followed by a colon and any text \<open>t\<close> is parsed into the same record.
\<close>

theorem trailing_content_ignored:
  assumes "process_cpe_str s = Inr r"
  shows "process_cpe_str (s @ '':'' @ t) = Inr r"
proof (cases "re_match cpe_2_3_formatted_pattern s")
  case None
  with assms show ?thesis by (simp add: process_cpe_str_def)
next
  case (Some groups)
  from re_match_pattern_append [OF Some, of t]
  have "re_match cpe_2_3_formatted_pattern (s @ '':'' @ t) = Some groups"
    by simp
  with Some assms show ?thesis by (simp add: process_cpe_str_def)
qed

theorem trailing_content_ignored_witness:
  "process_cpe_str ''cpe:2.3:a:mozilla:firefox:78:*:*:*:*:*:*:-'' =
     Inr [(''part'', ''a''), (''vendor'', ''mozilla''), (''product'', ''firefox''),
          (''version'', ''78''), (''update'', ''ANY''), (''edition'', ''ANY''),
          (''language'', ''ANY''), (''sw_edition'', ''ANY''), (''target_sw'', ''ANY''),
          (''target_hw'', ''ANY''), (''other'', ''NA'')]
   \<and> process_cpe_str (''cpe:2.3:a:mozilla:firefox:78:*:*:*:*:*:*:-'' @ '':'' @ ''x*y:??'') =
     Inr [(''part'', ''a''), (''vendor'', ''mozilla''), (''product'', ''firefox''),
          (''version'', ''78''), (''update'', ''ANY''), (''edition'', ''ANY''),
          (''language'', ''ANY''), (''sw_edition'', ''ANY''), (''target_sw'', ''ANY''),
          (''target_hw'', ''ANY''), (''other'', ''NA'')]"
proof -
  have run: "process_cpe_str ''cpe:2.3:a:mozilla:firefox:78:*:*:*:*:*:*:-'' =
     Inr [(''part'', ''a''), (''vendor'', ''mozilla''), (''product'', ''firefox''),
          (''version'', ''78''), (''update'', ''ANY''), (''edition'', ''ANY''),
          (''language'', ''ANY''), (''sw_edition'', ''ANY''), (''target_sw'', ''ANY''),
          (''target_hw'', ''ANY''), (''other'', ''NA'')]"
    by code_simp
  from run trailing_content_ignored [OF run, of "''x*y:??''"] show ?thesis
    by (rule conjI)
qed

section \<open>The prefix\<close>

text \<open>
  An input that the pattern matches starts with \<^verbatim>\<open>cpe:2\<close>, one character that is
  not a newline, \<^verbatim>\<open>3:\<close> and a part indicator.
\<close>

lemma re_match_Dot_SomeD:
  "re_match (Dot # p) s = Some gs \<Longrightarrow>
   \<exists>x xs. s = x # xs \<and> x \<noteq> newline \<and> re_match p xs = Some gs"
  by (cases s) (auto split: if_splits)

lemma re_match_Group_class_SomeD:
  "re_match (Group_class cs # p) s = Some gs \<Longrightarrow>
   \<exists>x xs gs'. s = x # xs \<and> x \<in> set cs \<and> re_match p xs = Some gs' \<and> gs = Some [x] # gs'"
  by (cases s) (auto split: if_splits)

lemma accepted_prefix:
  assumes "re_match cpe_2_3_formatted_pattern s = Some gs"
  shows "\<exists>x part rest. s = ''cpe:2'' @ x # ''3:'' @ part # rest
           \<and> x \<noteq> newline \<and> part \<in> set ''aho''"
proof -
  let ?tail = "segments_pattern 10"
  from assms have "re_match (Lit CHR ''c'' # Lit CHR ''p'' # Lit CHR ''e'' # Lit CHR '':'' #
      Lit CHR ''2'' # Dot # Lit CHR ''3'' # Lit CHR '':'' # Group_class ''aho'' # ?tail) s = Some gs"
    unfolding pattern_split by simp
  then obtain s1 where "s = CHR ''c'' # s1" and "re_match (Lit CHR ''p'' # Lit CHR ''e'' #
      Lit CHR '':'' # Lit CHR ''2'' # Dot # Lit CHR ''3'' # Lit CHR '':'' # Group_class ''aho'' #
      ?tail) s1 = Some gs"
    using re_match_Lit_SomeD by blast
  moreover then obtain s2 where "s1 = CHR ''p'' # s2" and "re_match (Lit CHR ''e'' #
      Lit CHR '':'' # Lit CHR ''2'' # Dot # Lit CHR ''3'' # Lit CHR '':'' # Group_class ''aho'' #
      ?tail) s2 = Some gs"
    using re_match_Lit_SomeD by blast
  moreover then obtain s3 where "s2 = CHR ''e'' # s3" and "re_match (Lit CHR '':'' #
      Lit CHR ''2'' # Dot # Lit CHR ''3'' # Lit CHR '':'' # Group_class ''aho'' # ?tail) s3 = Some gs"
    using re_match_Lit_SomeD by blast
  moreover then obtain s4 where "s3 = CHR '':'' # s4" and "re_match (Lit CHR ''2'' # Dot #
      Lit CHR ''3'' # Lit CHR '':'' # Group_class ''aho'' # ?tail) s4 = Some gs"
    using re_match_Lit_SomeD by blast
  moreover then obtain s5 where "s4 = CHR ''2'' # s5" and "re_match (Dot #
      Lit CHR ''3'' # Lit CHR '':'' # Group_class ''aho'' # ?tail) s5 = Some gs"
    using re_match_Lit_SomeD by blast
  moreover then obtain x s6 where "s5 = x # s6" and "x \<noteq> newline" and "re_match (
      Lit CHR ''3'' # Lit CHR '':'' # Group_class ''aho'' # ?tail) s6 = Some gs"
    using re_match_Dot_SomeD by blast
  moreover then obtain s7 where "s6 = CHR ''3'' # s7" and "re_match (
      Lit CHR '':'' # Group_class ''aho'' # ?tail) s7 = Some gs"
    using re_match_Lit_SomeD by blast
  moreover then obtain s8 where "s7 = CHR '':'' # s8" and "re_match (
      Group_class ''aho'' # ?tail) s8 = Some gs"
    using re_match_Lit_SomeD by blast
  moreover then obtain part rest where "s8 = part # rest" and "part \<in> set ''aho''"
    using re_match_Group_class_SomeD by blast
  ultimately show ?thesis
    by simp
qed

text \<open>
  C2. The specification has every input whose first eight characters are not
  \<^verbatim>\<open>cpe:2.3:\<close> fail as malformed. The code does not reject \<^verbatim>\<open>cpe:2x3:\<close>: the dot of the pattern
  stands for any character, and the input below is parsed into a record.
\<close>

theorem dot_of_prefix_matches_any_character:
  "process_cpe_str ''cpe:2x3:a:mozilla:firefox:78:*:*:*:*:*:*:-'' =
     Inr [(''part'', ''a''), (''vendor'', ''mozilla''), (''product'', ''firefox''),
          (''version'', ''78''), (''update'', ''ANY''), (''edition'', ''ANY''),
          (''language'', ''ANY''), (''sw_edition'', ''ANY''), (''target_sw'', ''ANY''),
          (''target_hw'', ''ANY''), (''other'', ''NA'')]"
  by code_simp

section \<open>The scan of a component\<close>

lemma add_quoting_loop_done:
  "length string \<le> idx st \<Longrightarrow> add_quoting_loop string st = Inr (result st)"
  by (simp add: add_quoting_loop.simps [of string st])









text \<open>
  The cursor moves by one or by two, and by two only from an escape marker or from a
  question mark. So the last position of a component is left out of the scan in three
  cases only: the encoder has failed before it, or it is the second character of an
  escaped pair, or the fall-through of a question mark just before it has consumed it.
\<close>

lemma loop_body_jump:
  assumes "idx st < length string" and "loop_body string st = Inr st'"
  shows "idx st' = idx st + 1
         \<or> (idx st' = idx st + 2
             \<and> (string ! idx st = backslash \<or> string ! idx st = CHR ''?''))"
  using assms
  by (auto simp: loop_body_def getitem_def escape_char_def split: sum.splits if_splits)

lemma scan_from_head:
  "idx st < length string \<Longrightarrow> st \<in> set (scan_from string st)"
  by (simp add: scan_from.simps [of string st])

lemma scan_from_tail:
  assumes "idx st < length string" and "loop_body string st = Inr st'"
    and "st'' \<in> set (scan_from string st')"
  shows "st'' \<in> set (scan_from string st)"
  using assms by (simp add: scan_from.simps [of string st])

lemma position_reached_or_consumed:
  "idx st \<le> i \<Longrightarrow> i < length string \<Longrightarrow>
   (\<exists>st'\<in>set (scan_from string st). idx st' = i)
   \<or> (\<exists>e. add_quoting_loop string st = Inl e)
   \<or> (\<exists>st'\<in>set (scan_from string st). Suc (idx st') = i
          \<and> (string ! idx st' = backslash \<or> string ! idx st' = CHR ''?''))"
proof (induction string st rule: add_quoting_loop.induct)
  case (1 string st)
  from "1.prems" have range: "idx st < length string"
    by simp
  show ?case
  proof (cases "idx st = i")
    case True
    with scan_from_head [OF range] show ?thesis
      by blast
  next
    case False
    with "1.prems" have before: "idx st < i"
      by simp
    show ?thesis
    proof (cases "loop_body string st")
      case (Inl e)
      with range have "add_quoting_loop string st = Inl e"
        by (simp add: add_quoting_loop.simps [of string st])
      then show ?thesis
        by blast
    next
      case (Inr st1)
      from range Inr have next_loop: "add_quoting_loop string st = add_quoting_loop string st1"
        by (simp add: add_quoting_loop.simps [of string st])
      show ?thesis
      proof (cases "idx st1 \<le> i")
        case True
        from "1.IH" [OF range Inr True "1.prems"(2)]
        show ?thesis
          using scan_from_tail [OF range Inr] next_loop by auto
      next
        case False
        with loop_body_jump [OF range Inr] before
        have "Suc (idx st) = i"
          and "string ! idx st = backslash \<or> string ! idx st = CHR ''?''"
          by auto
        with scan_from_head [OF range] show ?thesis
          by blast
      qed
    qed
  qed
qed

lemma last_position_reached_or_consumed:
  assumes "string \<noteq> []"
  shows "(\<exists>st\<in>set (scan string). idx st = length string - 1)
         \<or> (\<exists>e. add_quoting string = Inl e)
         \<or> (\<exists>st\<in>set (scan string). Suc (idx st) = length string - 1
                \<and> (string ! idx st = backslash \<or> string ! idx st = CHR ''?''))"
  unfolding scan_def add_quoting_def
  using assms by (intro position_reached_or_consumed) simp_all




section \<open>The asterisk\<close>






section \<open>Encoding an output again\<close>

text \<open>
  On a component without a question mark the output of \<^verbatim>\<open>add_quoting\<close> is encoded
  to itself: scanning the output meets the same tokens, an escaped pair being copied as
  it is.
\<close>

lemma loop_body_extends:
  "loop_body string st = Inr st' \<Longrightarrow> \<exists>token. result st' = result st @ token"
  by (auto simp: loop_body_def escape_char_def split: sum.splits if_splits)

lemma add_quoting_loop_extends:
  "add_quoting_loop string st = Inr out \<Longrightarrow> \<exists>suffix. out = result st @ suffix"
proof (induction string st rule: add_quoting_loop.induct)
  case (1 string st)
  show ?case
  proof (cases "idx st < length string")
    case False
    with "1.prems" show ?thesis
      by (simp add: add_quoting_loop.simps [of string st])
  next
    case True
    with "1.prems" obtain st' where step: "loop_body string st = Inr st'"
      and rest: "add_quoting_loop string st' = Inr out"
      by (auto simp: add_quoting_loop.simps [of string st] split: sum.splits)
    from "1.IH" [OF True step rest] loop_body_extends [OF step] show ?thesis
      by auto
  qed
qed

lemma rescan_unreserved:
  assumes "isalnum c \<or> c = CHR ''_''"
  shows "loop_body (r @ c # suffix) \<lparr>result = r, idx = length r, embedded = b\<rparr> =
           Inr \<lparr>result = r @ [c], idx = length r + 1, embedded = True\<rparr>"
  using assms by (simp add: loop_body_def getitem_def)

lemma rescan_pair:
  "loop_body (r @ backslash # x # suffix) \<lparr>result = r, idx = length r, embedded = b\<rparr> =
     Inr \<lparr>result = r @ [backslash, x], idx = length r + 2, embedded = True\<rparr>"
  by (simp add: loop_body_def getitem_def slice_def isalnum_def)

lemma rescan_lone_marker:
  "loop_body (r @ [backslash]) \<lparr>result = r, idx = length r, embedded = b\<rparr> =
     Inr \<lparr>result = r @ [backslash], idx = length r + 2, embedded = True\<rparr>"
  by (simp add: loop_body_def getitem_def slice_def isalnum_def)

lemma rescan_star:
  assumes "r = [] \<or> suffix = []"
  shows "loop_body (r @ CHR ''*'' # suffix) \<lparr>result = r, idx = length r, embedded = b\<rparr> =
           Inr \<lparr>result = r @ ''*'', idx = length r + 1, embedded = True\<rparr>"
  using assms by (auto simp: loop_body_def getitem_def isalnum_def)

lemma add_quoting_loop_step:
  assumes "idx st < length string" and "loop_body string st = Inr st'"
  shows "add_quoting_loop string st = add_quoting_loop string st'"
  using assms by (simp add: add_quoting_loop.simps [of string st])

lemma rescan_output:
  "add_quoting_loop string st = Inr out \<Longrightarrow> (idx st = 0 \<longrightarrow> result st = []) \<Longrightarrow>
   CHR ''?'' \<notin> set string \<Longrightarrow>
   add_quoting_loop out \<lparr>result = result st, idx = length (result st), embedded = b\<rparr>
     = Inr out"
proof (induction string st arbitrary: b rule: add_quoting_loop.induct)
  case (1 string st)
  let ?r = "result st"
  let ?c = "string ! idx st"
  show ?case
  proof (cases "idx st < length string")
    case False
    with "1.prems"(1) have "out = ?r"
      by (simp add: add_quoting_loop.simps [of string st])
    then show ?thesis
      by (simp add: add_quoting_loop_done)
  next
    case True
    with "1.prems"(1) obtain st' where step: "loop_body string st = Inr st'"
      and rest: "add_quoting_loop string st' = Inr out"
      by (auto simp: add_quoting_loop.simps [of string st] split: sum.splits)
    from loop_body_advances [OF step] have pos: "idx st' \<noteq> 0"
      by simp
    from add_quoting_loop_extends [OF rest] obtain suffix where out: "out = result st' @ suffix"
      by blast
    have IH: "add_quoting_loop out
                \<lparr>result = result st', idx = length (result st'), embedded = b'\<rparr> = Inr out" for b'
      using "1.IH" [OF True step rest _ "1.prems"(3)] pos by simp
    from True have "?c \<in> set string"
      by simp
    with "1.prems"(3) have noq: "?c \<noteq> CHR ''?''"
      by auto
    consider (unreserved) "isalnum ?c \<or> ?c = CHR ''_''"
      | (marker) "\<not> (isalnum ?c \<or> ?c = CHR ''_'')" "?c = backslash"
      | (star) "\<not> (isalnum ?c \<or> ?c = CHR ''_'')" "?c = CHR ''*''"
      | (other) "\<not> (isalnum ?c \<or> ?c = CHR ''_'')" "?c \<noteq> backslash" "?c \<noteq> CHR ''*''"
      by blast
    then show ?thesis
    proof cases
      case unreserved
      with True step have st': "st' = \<lparr>result = ?r @ [?c], idx = idx st + 1, embedded = True\<rparr>"
        by (auto simp: loop_body_def getitem_def)
      with out have shape: "out = ?r @ ?c # suffix"
        by simp
      have "add_quoting_loop out \<lparr>result = ?r, idx = length ?r, embedded = b\<rparr> =
            add_quoting_loop out \<lparr>result = ?r @ [?c], idx = length ?r + 1, embedded = True\<rparr>"
        unfolding shape
        by (rule add_quoting_loop_step [OF _ rescan_unreserved [OF unreserved]]) simp
      with IH [of True] st' show ?thesis
        by simp
    next
      case marker
      with True step have st': "st' = \<lparr>result = ?r @ slice string (idx st) (idx st + 1 + 1),
                                     idx = idx st + 2, embedded = True\<rparr>"
        by (auto simp: loop_body_def getitem_def)
      show ?thesis
      proof (cases "Suc (idx st) < length string")
        case True
        then have "drop (idx st) string = ?c # string ! Suc (idx st) # drop (Suc (Suc (idx st))) string"
          by (simp add: Cons_nth_drop_Suc Suc_lessD)
        with marker have tok: "slice string (idx st) (idx st + 1 + 1)
                                 = [backslash, string ! Suc (idx st)]"
          by (simp add: slice_def)
        with st' out have shape: "out = ?r @ backslash # string ! Suc (idx st) # suffix"
          by simp
        have "add_quoting_loop out \<lparr>result = ?r, idx = length ?r, embedded = b\<rparr> =
              add_quoting_loop out \<lparr>result = ?r @ [backslash, string ! Suc (idx st)],
                                     idx = length ?r + 2, embedded = True\<rparr>"
          unfolding shape
          by (rule add_quoting_loop_step [OF _ rescan_pair]) simp
        with IH [of True] st' tok show ?thesis
          by simp
      next
        case False
        with \<open>idx st < length string\<close> have last: "Suc (idx st) = length string"
          by simp
        from \<open>idx st < length string\<close>
        have "drop (idx st) string = ?c # drop (Suc (idx st)) string"
          by (simp add: Cons_nth_drop_Suc)
        with last have "drop (idx st) string = [?c]"
          by simp
        with marker have tok: "slice string (idx st) (idx st + 1 + 1) = [backslash]"
          by (simp add: slice_def)
        from last st' have "length string \<le> idx st'"
          by simp
        with rest have "out = result st'"
          by (simp add: add_quoting_loop_done)
        with st' tok have shape: "out = ?r @ [backslash]"
          by simp
        have "add_quoting_loop out \<lparr>result = ?r, idx = length ?r, embedded = b\<rparr> =
              add_quoting_loop out \<lparr>result = ?r @ [backslash],
                                     idx = length ?r + 2, embedded = True\<rparr>"
          unfolding shape
          by (rule add_quoting_loop_step [OF _ rescan_lone_marker]) simp
        also have "\<dots> = Inr out"
          unfolding shape by (simp add: add_quoting_loop_done)
        finally show ?thesis .
      qed
    next
      case star
      with True step have place: "idx st = 0 \<or> idx st = length string - 1"
        and st': "st' = \<lparr>result = ?r @ ''*'', idx = idx st + 1, embedded = True\<rparr>"
        by (auto simp: loop_body_def getitem_def split: if_splits)
      from st' out have shape: "out = ?r @ CHR ''*'' # suffix"
        by simp
      have "?r = [] \<or> suffix = []"
      proof (cases "idx st = 0")
        case True
        with "1.prems"(2) show ?thesis by simp
      next
        case False
        with place \<open>idx st < length string\<close> st' have "length string \<le> idx st'"
          by simp
        with rest have "out = result st'"
          by (simp add: add_quoting_loop_done)
        with out show ?thesis by simp
      qed
      then have "add_quoting_loop out \<lparr>result = ?r, idx = length ?r, embedded = b\<rparr> =
            add_quoting_loop out \<lparr>result = ?r @ ''*'', idx = length ?r + 1, embedded = True\<rparr>"
        unfolding shape
        by (intro add_quoting_loop_step [OF _ rescan_star]) simp_all
      with IH [of True] st' show ?thesis
        by simp
    next
      case other
      with True step noq have st': "st' = escape_char ?c st"
        by (auto simp: loop_body_def getitem_def)
      with out have shape: "out = ?r @ backslash # ?c # suffix"
        by (simp add: escape_char_def)
      have "add_quoting_loop out \<lparr>result = ?r, idx = length ?r, embedded = b\<rparr> =
            add_quoting_loop out \<lparr>result = ?r @ [backslash, ?c],
                                   idx = length ?r + 2, embedded = True\<rparr>"
        unfolding shape
        by (rule add_quoting_loop_step [OF _ rescan_pair]) simp
      with IH [of True] st' show ?thesis
        by (simp add: escape_char_def)
    qed
  qed
qed

lemma add_quoting_idempotent_without_question_mark:
  assumes "CHR ''?'' \<notin> set string" and "add_quoting string = Inr out"
  shows "add_quoting out = Inr out"
  using rescan_output [of string "\<lparr>result = [], idx = 0, embedded = False\<rparr>" out False]
    assms
  by (simp add: add_quoting_def)

text \<open>
  C4. The specification has the output of the encoder encoded to itself.
  The code does not: the component \<^verbatim>\<open>?\<close> is encoded as the three characters
  question mark, escape marker, question mark, and encoding these three gives six.
\<close>

theorem add_quoting_not_idempotent:
  "add_quoting ''?'' = Inr [CHR ''?'', backslash, CHR ''?'']
   \<and> add_quoting [CHR ''?'', backslash, CHR ''?'']
       = Inr [CHR ''?'', backslash, CHR ''?'', CHR ''?'', backslash, CHR ''?'']"
  by code_simp

end
